theory Spec2Isabelle
  imports
    Complex_Main
    "HOL-Library.Word"
    "HOL-Library.Signed_Division"
    "HOL-Library.Log_Nat"
    "HOL-Library.Monad_Syntax"
begin

section \<open>The C++ type \<open>int\<close>\<close>

text \<open>
  The header \<^verbatim>\<open>src/models/tree/build_tree.h\<close> computes node identifiers with the C++ type
  \<^verbatim>\<open>int\<close> (32 bits, two's complement). Signed overflow is undefined behaviour in C++, so
  every arithmetic operation of the model checks its mathematical result against the range
  of \<^verbatim>\<open>int\<close> and yields \<open>None\<close> where the C++ expression has no defined value.
\<close>

definition INT_MIN :: int where
  "INT_MIN = - (2 ^ 31)"

definition INT_MAX :: int where
  "INT_MAX = 2 ^ 31 - 1"

definition int_range :: "int \<Rightarrow> bool" where
  "int_range x \<longleftrightarrow> INT_MIN \<le> x \<and> x \<le> INT_MAX"

definition cint :: "int \<Rightarrow> int option" where
  "cint x = (if int_range x then Some x else None)"

definition add_int :: "int \<Rightarrow> int \<Rightarrow> int option" where
  "add_int a b = cint (a + b)"

definition sub_int :: "int \<Rightarrow> int \<Rightarrow> int option" where
  "sub_int a b = cint (a - b)"

definition mul_int :: "int \<Rightarrow> int \<Rightarrow> int option" where
  "mul_int a b = cint (a * b)"

text \<open>C++ \<^verbatim>\<open>/\<close> on \<^verbatim>\<open>int\<close> truncates towards zero (\<open>sdiv\<close>), unlike \<open>div\<close>.\<close>

definition div_int :: "int \<Rightarrow> int \<Rightarrow> int option" where
  "div_int a b = (if b = 0 then None else cint (a sdiv b))"

text \<open>
  C++ \<^verbatim>\<open>a << n\<close> on \<^verbatim>\<open>int\<close>: defined for a shift count within the width and a
  non-negative \<open>a\<close> whose shifted value fits the 32 bits; a result with the top bit set
  reads as a negative number.
\<close>

definition shl_int :: "int \<Rightarrow> int \<Rightarrow> int option" where
  "shl_int a n =
     (if 0 \<le> n \<and> n < 32 \<and> 0 \<le> a \<and> a * 2 ^ nat n < 2 ^ 32
      then Some (if a * 2 ^ nat n \<le> INT_MAX then a * 2 ^ nat n else a * 2 ^ nat n - 2 ^ 32)
      else None)"

section \<open>The class \<open>BinaryTree\<close>\<close>

definition Parent :: "int \<Rightarrow> int option" where
  "Parent i = do { a \<leftarrow> sub_int i 1; div_int a 2 }"

definition LeftChild :: "int \<Rightarrow> int option" where
  "LeftChild i = do { a \<leftarrow> mul_int 2 i; add_int a 1 }"

definition RightChild :: "int \<Rightarrow> int option" where
  "RightChild i = do { a \<leftarrow> mul_int 2 i; add_int a 2 }"

definition LevelBegin :: "int \<Rightarrow> int option" where
  "LevelBegin level = do { a \<leftarrow> shl_int 1 level; sub_int a 1 }"

definition NodesInLevel :: "int \<Rightarrow> int option" where
  "NodesInLevel level = shl_int 1 level"

section \<open>The C++ type \<open>double\<close>\<close>

text \<open>
  A \<^verbatim>\<open>double\<close> is an IEEE 754 binary64 datum: a sign bit, 11 exponent bits and 52
  fraction bits. Every value of the record below is one bit pattern and conversely.
\<close>

record double =
  sign :: bool
  expo :: "11 word"
  frac :: "52 word"

definition is_nan :: "double \<Rightarrow> bool" where
  "is_nan d \<longleftrightarrow> expo d = 2047 \<and> frac d \<noteq> 0"

definition is_infinity :: "double \<Rightarrow> bool" where
  "is_infinity d \<longleftrightarrow> expo d = 2047 \<and> frac d = 0"

definition is_finite :: "double \<Rightarrow> bool" where
  "is_finite d \<longleftrightarrow> expo d \<noteq> 2047"

definition is_zero :: "double \<Rightarrow> bool" where
  "is_zero d \<longleftrightarrow> expo d = 0 \<and> frac d = 0"

text \<open>
  The magnitude of a datum counted in units of \<open>2 powr -1074\<close>, the smallest positive
  \<^verbatim>\<open>double\<close>: every finite magnitude is a whole number of them. The same formula gives an
  infinity \<open>2 ^ 2098\<close>, above every finite magnitude.
\<close>

definition units :: "double \<Rightarrow> nat" where
  "units d =
     (if expo d = 0 then unat (frac d)
      else (2 ^ 52 + unat (frac d)) * 2 ^ (unat (expo d) - 1))"

definition sunits :: "double \<Rightarrow> int" where
  "sunits d = (if sign d then - int (units d) else int (units d))"

text \<open>The real number a finite datum stands for.\<close>

definition valof :: "double \<Rightarrow> real" where
  "valof d = real_of_int (sunits d) / 2 ^ 1074"

text \<open>The comparisons \<^verbatim>\<open><\<close> and \<^verbatim>\<open>==\<close>: false as soon as an operand is a NaN.\<close>

definition dlt :: "double \<Rightarrow> double \<Rightarrow> bool" where
  "dlt a b \<longleftrightarrow> \<not> is_nan a \<and> \<not> is_nan b \<and> sunits a < sunits b"

definition deq :: "double \<Rightarrow> double \<Rightarrow> bool" where
  "deq a b \<longleftrightarrow> \<not> is_nan a \<and> \<not> is_nan b \<and> sunits a = sunits b"

text \<open>Literals: a datum from its sign, biased exponent and fraction field.\<close>

definition dbl :: "bool \<Rightarrow> nat \<Rightarrow> nat \<Rightarrow> double" where
  "dbl s e f = \<lparr>sign = s, expo = of_nat e, frac = of_nat f\<rparr>"

definition quiet_nan :: double where
  "quiet_nan = dbl False 2047 (2 ^ 51)"

definition d_zero :: double where
  "d_zero = dbl False 0 0"

definition d_one :: double where
  "d_one = dbl False 1023 0"

definition d_three :: double where
  "d_three = dbl False 1024 (2 ^ 51)"

definition d_four :: double where
  "d_four = dbl False 1025 0"

definition d_five :: double where
  "d_five = dbl False 1025 (2 ^ 50)"

definition d_ten :: double where
  "d_ten = dbl False 1026 (2 ^ 50)"

definition d_minus_two :: double where
  "d_minus_two = dbl True 1024 0"

definition d_2p53 :: double where
  "d_2p53 = dbl False 1076 0"


definition d_quarter :: double where
  "d_quarter = dbl False 1021 0"

definition d_2p1023 :: double where
  "d_2p1023 = dbl False 2046 0"

subsection \<open>Rounding\<close>

text \<open>
  \<open>rne_div num den\<close> is the integer nearest to the fraction \<open>num / den\<close>, the even one of
  the two when the fraction lies half way.
\<close>

definition rne_div :: "nat \<Rightarrow> nat \<Rightarrow> nat" where
  "rne_div num den =
     (let q = num div den; r = num mod den
      in if 2 * r < den then q
         else if den < 2 * r then q + 1
         else if even q then q else q + 1)"

text \<open>
  Rounding to nearest, ties to even, of a magnitude of \<open>num / den\<close> units to the 53
  significant bits of the format. Below \<open>2 ^ 53\<close> units the data are one unit apart
  (the subnormal numbers and the first binade); with \<open>k > 53\<close> bits before the binary point they
  are \<open>2 ^ (k - 53)\<close> units apart. The result is a magnitude in units again.
\<close>

definition round_units :: "nat \<Rightarrow> nat \<Rightarrow> nat" where
  "round_units num den =
     (let sh = floorlog 2 (num div den) - 53
      in rne_div num (den * 2 ^ sh) * 2 ^ sh)"

text \<open>
  The datum of a sign and a rounded magnitude: an infinity when the magnitude is beyond the
  largest finite one (overflow), a zero or subnormal number below \<open>2 ^ 52\<close> units.
\<close>

definition encode :: "bool \<Rightarrow> nat \<Rightarrow> double" where
  "encode s n =
     (if n < 2 ^ 52 then \<lparr>sign = s, expo = 0, frac = of_nat n\<rparr>
      else let sh = floorlog 2 n - 53
           in if 2046 \<le> sh then \<lparr>sign = s, expo = 2047, frac = 0\<rparr>
              else \<lparr>sign = s, expo = of_nat (sh + 1), frac = of_nat (n div 2 ^ sh - 2 ^ 52)\<rparr>)"

subsection \<open>Arithmetic\<close>

text \<open>
  The operators \<^verbatim>\<open>-x\<close>, \<^verbatim>\<open>x + y\<close>, \<^verbatim>\<open>x - y\<close> and \<^verbatim>\<open>x / y\<close> of IEEE 754 in the
  default rounding mode. They return a datum for every operand: a division by zero gives an
  infinity or a NaN and raises nothing. The payload of a NaN result is not modelled: every
  invalid operation gives \<open>quiet_nan\<close>.
\<close>

definition signed_infinity :: "bool \<Rightarrow> double" where
  "signed_infinity s = \<lparr>sign = s, expo = 2047, frac = 0\<rparr>"

definition signed_zero :: "bool \<Rightarrow> double" where
  "signed_zero s = \<lparr>sign = s, expo = 0, frac = 0\<rparr>"

definition fneg :: "double \<Rightarrow> double" where
  "fneg x = x\<lparr>sign := \<not> sign x\<rparr>"

text \<open>
  A sum of two finite data is the exact sum of the signed magnitudes, rounded. An exact sum
  of zero is \<open>+0\<close>, except that \<open>-0 + -0\<close> is \<open>-0\<close>.
\<close>

definition fadd :: "double \<Rightarrow> double \<Rightarrow> double" where
  "fadd x y =
     (if is_nan x \<or> is_nan y then quiet_nan
      else if is_infinity x
      then (if is_infinity y \<and> sign y \<noteq> sign x then quiet_nan else x)
      else if is_infinity y then y
      else let s = sunits x + sunits y
           in if s = 0 then signed_zero (sign x \<and> sign y)
              else encode (s < 0) (round_units (nat \<bar>s\<bar>) 1))"

text \<open>\<open>x - y\<close> is \<open>x + (-y)\<close> in IEEE 754.\<close>

definition fsub :: "double \<Rightarrow> double \<Rightarrow> double" where
  "fsub x y = fadd x (fneg y)"

text \<open>
  A quotient of two finite data, the divisor not zero, is the exact quotient of the
  magnitudes, \<open>units x * 2 ^ 1074 / units y\<close> units, rounded; its sign is negative when the signs
  of the operands differ.
\<close>

definition fdiv :: "double \<Rightarrow> double \<Rightarrow> double" where
  "fdiv x y =
     (if is_nan x \<or> is_nan y then quiet_nan
      else if is_infinity x
      then (if is_infinity y then quiet_nan else signed_infinity (sign x \<noteq> sign y))
      else if is_infinity y then signed_zero (sign x \<noteq> sign y)
      else if is_zero y
      then (if is_zero x then quiet_nan else signed_infinity (sign x \<noteq> sign y))
      else if is_zero x then signed_zero (sign x \<noteq> sign y)
      else encode (sign x \<noteq> sign y) (round_units (units x * 2 ^ 1074) (units y)))"

text \<open>
  Two results are the same datum when they are the same number bit for bit or are both NaN.
\<close>

definition same_datum :: "double \<Rightarrow> double \<Rightarrow> bool" where
  "same_datum a b \<longleftrightarrow> (is_nan a \<and> is_nan b) \<or> a = b"

section \<open>Histogram selection\<close>

text \<open>
  \<^verbatim>\<open>legate::Buffer<double, 2>\<close> is read at a point \<^verbatim>\<open>{node, column}\<close> with no bounds
  check: the model is the function from points to the stored data.
\<close>

type_synonym hessian_buffer = "int \<times> int \<Rightarrow> double"

text \<open>A concrete buffer from the rows it stores in column 0, zero elsewhere.\<close>

definition buffer_of :: "(int \<times> double) list \<Rightarrow> hessian_buffer" where
  "buffer_of rows p =
     (case map_of rows (fst p) of
        Some v \<Rightarrow> (if snd p = 0 then v else d_zero)
      | None \<Rightarrow> d_zero)"

definition SelectHistogramNode :: "int \<Rightarrow> hessian_buffer \<Rightarrow> (int \<times> int) option" where
  "SelectHistogramNode parent node_hessians =
     do {
       left_child \<leftarrow> LeftChild parent;
       right_child \<leftarrow> RightChild parent;
       if dlt (node_hessians (left_child, 0)) (node_hessians (right_child, 0))
       then Some (left_child, right_child)
       else Some (right_child, left_child)
     }"

definition ComputeHistogramBin :: "int \<Rightarrow> int \<Rightarrow> hessian_buffer \<Rightarrow> bool option" where
  "ComputeHistogramBin node_id depth node_hessians =
     (if node_id = 0 then Some True
      else if node_id < 0 then Some False
      else do {
        parent \<leftarrow> Parent node_id;
        (histogram_node, subtract_node) \<leftarrow> SelectHistogramNode parent node_hessians;
        Some (histogram_node = node_id)
      })"

text \<open>Buffers for the examples: a tie, a NaN beside a number, and 3.0 beside 5.0.\<close>

definition tie_buffer :: hessian_buffer where
  "tie_buffer = buffer_of [(1, d_four), (2, d_four)]"

definition nan_buffer :: hessian_buffer where
  "nan_buffer = buffer_of [(1, quiet_nan), (2, d_one)]"

definition example_buffer :: hessian_buffer where
  "example_buffer = buffer_of [(1, d_three), (2, d_five)]"

section \<open>Leaf value\<close>

definition CalculateLeafValue :: "double \<Rightarrow> double \<Rightarrow> double \<Rightarrow> double" where
  "CalculateLeafValue G H alpha = fdiv (fneg G) (fadd H alpha)"

section \<open>Gradient pairs\<close>

record GPair =
  grad :: double
  hess :: double

text \<open>The default member initialisers: both fields \<^verbatim>\<open>0.0\<close>.\<close>

definition GPair_init :: GPair where
  "GPair_init = \<lparr>grad = d_zero, hess = d_zero\<rparr>"

text \<open>\<^verbatim>\<open>operator+=\<close> updates the object in place; the model returns the updated object.\<close>

definition operator_plus_assign :: "GPair \<Rightarrow> GPair \<Rightarrow> GPair" where
  "operator_plus_assign this b =
     this\<lparr>grad := fadd (grad this) (grad b), hess := fadd (hess this) (hess b)\<rparr>"

definition operator_minus :: "GPair \<Rightarrow> GPair \<Rightarrow> GPair" where
  "operator_minus a b = \<lparr>grad = fsub (grad a) (grad b), hess = fsub (hess a) (hess b)\<rparr>"

definition operator_plus :: "GPair \<Rightarrow> GPair \<Rightarrow> GPair" where
  "operator_plus a b = \<lparr>grad = fadd (grad a) (grad b), hess = fadd (hess a) (hess b)\<rparr>"

text \<open>\<^verbatim>\<open>==\<close> on both fields.\<close>

definition gpair_eq :: "GPair \<Rightarrow> GPair \<Rightarrow> bool" where
  "gpair_eq a b \<longleftrightarrow> deq (grad a) (grad b) \<and> deq (hess a) (hess b)"

definition same_pair :: "GPair \<Rightarrow> GPair \<Rightarrow> bool" where
  "same_pair a b \<longleftrightarrow> same_datum (grad a) (grad b) \<and> same_datum (hess a) (hess b)"

text \<open>
  A sum is exact when the operands and the result are finite and the result stands for the
  sum of the two real numbers: nothing was rounded off.
\<close>

definition exact_sum :: "double \<Rightarrow> double \<Rightarrow> bool" where
  "exact_sum x y \<longleftrightarrow>
     is_finite x \<and> is_finite y \<and> is_finite (fadd x y) \<and> valof (fadd x y) = valof x + valof y"

text \<open>The pairs \<open>(1.0, 0.0)\<close> and \<open>(2 ^ 53, 0.0)\<close>.\<close>

definition pair_one :: GPair where
  "pair_one = \<lparr>grad = d_one, hess = d_zero\<rparr>"

definition pair_2p53 :: GPair where
  "pair_2p53 = \<lparr>grad = d_2p53, hess = d_zero\<rparr>"

text \<open>The pairs \<open>(4.0, 4.0)\<close> and \<open>(1.0, 1.0)\<close>.\<close>

definition pair_four :: GPair where
  "pair_four = \<lparr>grad = d_four, hess = d_four\<rparr>"

definition pair_unit :: GPair where
  "pair_unit = \<lparr>grad = d_one, hess = d_one\<rparr>"

section \<open>Properties of the index arithmetic and of the selection\<close>

lemmas int_defs = cint_def int_range_def INT_MIN_def INT_MAX_def add_int_def sub_int_def mul_int_def
  div_int_def

lemma LeftChild_Some_iff:
  "LeftChild p = Some l \<longleftrightarrow> INT_MIN \<le> 2 * p \<and> 2 * p + 1 \<le> INT_MAX \<and> l = 2 * p + 1"
  by (auto simp: LeftChild_def int_defs bind_eq_Some_conv)

lemma RightChild_Some_iff:
  "RightChild p = Some r \<longleftrightarrow> INT_MIN \<le> 2 * p \<and> 2 * p + 2 \<le> INT_MAX \<and> r = 2 * p + 2"
  by (auto simp: RightChild_def int_defs bind_eq_Some_conv)

lemma Parent_pos: "0 < i \<Longrightarrow> i \<le> INT_MAX \<Longrightarrow> Parent i = Some ((i - 1) div 2)"
  by (auto simp: Parent_def int_defs signed_divide_int_def sgn_if)

lemma SelectHistogramNode_cases:
  assumes "LeftChild p = Some l" "RightChild p = Some r"
  shows "SelectHistogramNode p t =
      Some (if dlt (t (l, 0)) (t (r, 0)) then (l, r) else (r, l))"
  using assms by (simp add: SelectHistogramNode_def)

lemma dlt_total:
  "\<not> is_nan a \<Longrightarrow> \<not> is_nan b \<Longrightarrow> \<not> deq a b \<Longrightarrow> dlt a b \<or> dlt b a"
  by (auto simp: dlt_def deq_def)

lemma dlt_asym: "dlt a b \<Longrightarrow> \<not> dlt b a"
  by (auto simp: dlt_def)

lemma deq_not_dlt: "deq a b \<Longrightarrow> \<not> dlt a b"
  by (auto simp: dlt_def deq_def)

lemmas dbl_eval = dbl_def is_nan_def sunits_def units_def dlt_def deq_def
  d_zero_def d_one_def d_three_def d_four_def d_five_def quiet_nan_def

lemma LeftChild_0: "LeftChild 0 = Some 1"
  by (simp add: LeftChild_Some_iff INT_MIN_def INT_MAX_def)

lemma RightChild_0: "RightChild 0 = Some 2"
  by (simp add: RightChild_Some_iff INT_MIN_def INT_MAX_def)

text \<open>
  Claim C1 as stated fails. With \<^verbatim>\<open>4.0\<close> stored for both children of the root, the test
  \<^verbatim>\<open>node_hessians[{left_child, 0}] < node_hessians[{right_child, 0}]\<close> is false and the
  function reaches its last line: the result is not the pair (left child, right child).
\<close>

theorem SelectHistogramNode_tie_counterexample:
  "deq (tie_buffer (1, 0)) (tie_buffer (2, 0)) \<and> LeftChild 0 = Some 1 \<and> RightChild 0 = Some 2 \<and>
   SelectHistogramNode 0 tie_buffer \<noteq> Some (1, 2)"
  by (simp add: SelectHistogramNode_cases [OF LeftChild_0 RightChild_0] LeftChild_0 RightChild_0
      tie_buffer_def buffer_of_def dbl_eval)

text \<open>
  Claim C1, amended: for every parent whose children identifiers are representable and every
  buffer in which the two children compare equal (\<^verbatim>\<open>==\<close>), \<open>SelectHistogramNode\<close> returns
  the pair (right child, left child): on a tie the right child is the histogram node.
\<close>

theorem SelectHistogramNode_tie:
  assumes "LeftChild p = Some l" "RightChild p = Some r" "deq (t (l, 0)) (t (r, 0))"
  shows "SelectHistogramNode p t = Some (r, l)"
  using assms by (simp add: SelectHistogramNode_cases deq_not_dlt)

theorem SelectHistogramNode_tie_witness:
  "LeftChild 0 = Some 1 \<and> RightChild 0 = Some 2 \<and> deq (tie_buffer (1, 0)) (tie_buffer (2, 0)) \<and>
   SelectHistogramNode 0 tie_buffer = Some (2, 1)"
proof -
  have d: "deq (tie_buffer (1, 0)) (tie_buffer (2, 0))"
    by (simp add: tie_buffer_def buffer_of_def dbl_eval)
  show ?thesis
    using SelectHistogramNode_tie [OF LeftChild_0 RightChild_0 d] LeftChild_0 RightChild_0 d by simp
qed

text \<open>
  Claim C2 as stated fails on a NaN. With a NaN stored for the left child of the root and
  \<^verbatim>\<open>1.0\<close> for the right child the two data are not equal, the result is
  (right child, left child), and the right child is not strictly smaller than the left.
\<close>

theorem SelectHistogramNode_nan_counterexample:
  "LeftChild 0 = Some 1 \<and> RightChild 0 = Some 2 \<and>
   \<not> deq (nan_buffer (1, 0)) (nan_buffer (2, 0)) \<and>
   SelectHistogramNode 0 nan_buffer = Some (2, 1) \<and>
   \<not> dlt (nan_buffer (2, 0)) (nan_buffer (1, 0))"
  by (simp add: SelectHistogramNode_cases [OF LeftChild_0 RightChild_0] LeftChild_0 RightChild_0
      nan_buffer_def buffer_of_def dbl_eval)

text \<open>
  Claim C2, amended: for every parent whose children identifiers are representable and every
  buffer in which the two children are not NaN and are not equal, \<open>SelectHistogramNode\<close>
  returns as histogram node the child with the strictly smaller datum and as subtract node
  the other child. With \<^verbatim>\<open>3.0\<close> and \<^verbatim>\<open>5.0\<close> that is (left child, right child), as the
  evaluation after the theorem shows.
\<close>

theorem SelectHistogramNode_smaller:
  assumes "LeftChild p = Some l" "RightChild p = Some r"
    and "\<not> is_nan (t (l, 0))" "\<not> is_nan (t (r, 0))" "\<not> deq (t (l, 0)) (t (r, 0))"
  shows "(dlt (t (l, 0)) (t (r, 0)) \<and> SelectHistogramNode p t = Some (l, r)) \<or>
         (dlt (t (r, 0)) (t (l, 0)) \<and> SelectHistogramNode p t = Some (r, l))"
  using assms dlt_total [of "t (l, 0)" "t (r, 0)"] dlt_asym [of "t (r, 0)" "t (l, 0)"]
  by (auto simp: SelectHistogramNode_cases)

theorem SelectHistogramNode_smaller_witness:
  "LeftChild 0 = Some 1 \<and> RightChild 0 = Some 2 \<and>
   \<not> is_nan (example_buffer (1, 0)) \<and> \<not> is_nan (example_buffer (2, 0)) \<and>
   \<not> deq (example_buffer (1, 0)) (example_buffer (2, 0)) \<and>
   dlt (example_buffer (1, 0)) (example_buffer (2, 0)) \<and>
   SelectHistogramNode 0 example_buffer = Some (1, 2)"
proof -
  have n1: "\<not> is_nan (example_buffer (1, 0))" and n2: "\<not> is_nan (example_buffer (2, 0))"
    and ne: "\<not> deq (example_buffer (1, 0)) (example_buffer (2, 0))"
    and lt: "dlt (example_buffer (1, 0)) (example_buffer (2, 0))"
    by (simp_all add: example_buffer_def buffer_of_def dbl_eval)
  from SelectHistogramNode_smaller [OF LeftChild_0 RightChild_0 n1 n2 ne] lt dlt_asym [OF lt]
  have "SelectHistogramNode 0 example_buffer = Some (1, 2)" by blast
  with n1 n2 ne lt LeftChild_0 RightChild_0 show ?thesis by simp
qed

lemma Parent_LeftChild:
  assumes "0 \<le> p" "LeftChild p = Some l" shows "Parent l = Some p"
  using assms by (auto simp: LeftChild_Some_iff Parent_pos)

lemma Parent_RightChild:
  assumes "0 \<le> p" "RightChild p = Some r" shows "Parent r = Some p"
  using assms by (auto simp: RightChild_Some_iff Parent_pos)

lemma ComputeHistogramBin_child:
  assumes "0 < n" "Parent n = Some p" "LeftChild p = Some l" "RightChild p = Some r"
  shows "ComputeHistogramBin n depth t =
           Some ((if dlt (t (l, 0)) (t (r, 0)) then l else r) = n)"
  using assms by (simp add: ComputeHistogramBin_def SelectHistogramNode_cases)

text \<open>
  Claim C3: for every parent \<open>p \<ge> 0\<close> with both children (their identifiers are
  representable), every depth and every buffer, exactly one of the two calls of
  \<open>ComputeHistogramBin\<close> on the children returns true and the other returns false.
\<close>

theorem ComputeHistogramBin_exclusive:
  assumes "0 \<le> p" "LeftChild p = Some l" "RightChild p = Some r"
  shows "(ComputeHistogramBin l depth t = Some True \<and> ComputeHistogramBin r depth t = Some False) \<or>
         (ComputeHistogramBin l depth t = Some False \<and> ComputeHistogramBin r depth t = Some True)"
proof -
  have pos: "0 < l" "0 < r" and ne: "l \<noteq> r"
    using assms by (auto simp: LeftChild_Some_iff RightChild_Some_iff)
  have "ComputeHistogramBin l depth t = Some ((if dlt (t (l, 0)) (t (r, 0)) then l else r) = l)"
    using pos assms by (intro ComputeHistogramBin_child Parent_LeftChild) auto
  moreover
  have "ComputeHistogramBin r depth t = Some ((if dlt (t (l, 0)) (t (r, 0)) then l else r) = r)"
    using pos assms by (intro ComputeHistogramBin_child Parent_RightChild) auto
  ultimately show ?thesis using ne by auto
qed

theorem ComputeHistogramBin_exclusive_witness:
  "(0::int) \<le> 0 \<and> LeftChild 0 = Some 1 \<and> RightChild 0 = Some 2 \<and>
   ComputeHistogramBin 1 1 example_buffer = Some True \<and>
   ComputeHistogramBin 2 1 example_buffer = Some False"
proof -
  have lt: "dlt (example_buffer (1, 0)) (example_buffer (2, 0))"
    by (simp add: example_buffer_def buffer_of_def dbl_eval)
  have "ComputeHistogramBin 1 1 example_buffer \<noteq> Some False"
    using lt by (simp add: ComputeHistogramBin_child [OF _ Parent_LeftChild [OF _ LeftChild_0] LeftChild_0 RightChild_0])
  with ComputeHistogramBin_exclusive [OF order_refl LeftChild_0 RightChild_0, of 1 example_buffer] LeftChild_0 RightChild_0
  show ?thesis by auto
qed

text \<open>
  Claim C4: for every depth and buffer \<open>ComputeHistogramBin\<close> returns true for node 0 and
  returns false, with no error, for every negative node identifier.
\<close>

theorem ComputeHistogramBin_root_negative:
  "ComputeHistogramBin 0 depth t = Some True \<and>
   (node_id < 0 \<longrightarrow> ComputeHistogramBin node_id depth t = Some False)"
  by (simp add: ComputeHistogramBin_def)

theorem ComputeHistogramBin_root_negative_witness:
  "ComputeHistogramBin 0 3 example_buffer = Some True \<and> (-1::int) < 0 \<and>
   ComputeHistogramBin (-1) 3 example_buffer = Some False"
  using ComputeHistogramBin_root_negative [of 3 example_buffer "-1"] by simp

text \<open>
  Claim C10: the result of \<open>ComputeHistogramBin\<close> is the same for any two depths.
\<close>

theorem ComputeHistogramBin_depth:
  "ComputeHistogramBin node_id d1 t = ComputeHistogramBin node_id d2 t"
  by (simp add: ComputeHistogramBin_def)

text \<open>
  Claim C7: for every \<open>i > 0\<close> for which \<open>2 * i + 2\<close> is in the range of \<^verbatim>\<open>int\<close>, the
  parent of the left child and the parent of the right child of \<open>i\<close> are \<open>i\<close>, and
  \<open>Parent i\<close> is the integer quotient of \<open>i - 1\<close> by 2.
\<close>

theorem Parent_of_child:
  assumes "0 < i" "int_range (2 * i + 2)"
  shows "(LeftChild i \<bind> Parent) = Some i \<and> (RightChild i \<bind> Parent) = Some i \<and>
         Parent i = Some ((i - 1) div 2)"
proof -
  have l: "LeftChild i = Some (2 * i + 1)" and r: "RightChild i = Some (2 * i + 2)"
    using assms by (auto simp: LeftChild_Some_iff RightChild_Some_iff int_range_def INT_MIN_def)
  have "Parent (2 * i + 1) = Some i" "Parent (2 * i + 2) = Some i"
    using assms Parent_LeftChild [OF _ l] Parent_RightChild [OF _ r] by auto
  moreover have "Parent i = Some ((i - 1) div 2)"
    using assms by (intro Parent_pos) (auto simp: int_range_def)
  ultimately show ?thesis by (simp add: l r)
qed

theorem Parent_of_child_witness:
  "(0::int) < 5 \<and> int_range (2 * 5 + 2) \<and>
   (LeftChild 5 \<bind> Parent) = Some 5 \<and> (RightChild 5 \<bind> Parent) = Some 5 \<and> Parent 5 = Some 2"
proof -
  have r: "int_range (2 * 5 + 2)" by (simp add: int_range_def INT_MIN_def INT_MAX_def)
  show ?thesis using Parent_of_child [of 5, OF _ r] r by simp
qed

lemma pow2_lt:
  assumes "n < 31" shows "(2::int) ^ n < 2147483648"
proof -
  have "(2::int) ^ n < 2 ^ 31" using assms by (rule power_strict_increasing) simp
  then show ?thesis by simp
qed

lemma pow2_ge:
  assumes "31 \<le> n" shows "(2147483648::int) \<le> 2 ^ n"
proof -
  have "(2::int) ^ 31 \<le> 2 ^ n" using assms by (rule power_increasing) simp
  then show ?thesis by simp
qed

lemma shl_one:
  assumes "0 \<le> n" "n < 31" shows "shl_int 1 n = Some (2 ^ nat n)"
proof -
  have "nat n < 31" using assms by simp
  then have "(2::int) ^ nat n < 2147483648" by (rule pow2_lt)
  then show ?thesis using assms by (simp add: shl_int_def INT_MAX_def)
qed

text \<open>
  Claim C8: for every \<open>level \<ge> 0\<close> for which \<open>2 ^ (level + 1)\<close> is in the range of
  \<^verbatim>\<open>int\<close>, \<open>LevelBegin level\<close> is \<open>2 ^ level - 1\<close>, \<open>NodesInLevel level\<close> is
  \<open>2 ^ level\<close>, and \<open>LevelBegin (level + 1)\<close> is their sum, all without overflow.
\<close>

theorem LevelBegin_next:
  assumes "0 \<le> level" "int_range (2 ^ nat (level + 1))"
  shows "LevelBegin level = Some (2 ^ nat level - 1) \<and>
         NodesInLevel level = Some (2 ^ nat level) \<and>
         LevelBegin (level + 1) = Some ((2 ^ nat level - 1) + 2 ^ nat level)"
proof -
  have h: "(2::int) ^ nat (level + 1) < 2147483648"
    using assms(2) by (simp add: int_range_def INT_MAX_def)
  have "nat (level + 1) < 31"
  proof (rule ccontr)
    assume "\<not> nat (level + 1) < 31"
    then have "(2147483648::int) \<le> 2 ^ nat (level + 1)" by (intro pow2_ge) simp
    with h show False by simp
  qed
  then have lv: "level + 1 < 31" by simp
  have suc: "nat (level + 1) = Suc (nat level)" using assms(1) by (simp add: nat_add_distrib)
  define x :: int where "x = 2 ^ nat level"
  have x: "0 < x" "2 * x < 2147483648"
    using h by (simp_all add: x_def suc)
  have "shl_int 1 level = Some x" "shl_int 1 (level + 1) = Some (2 * x)"
    using lv assms(1) shl_one [of level] shl_one [of "level + 1"] by (simp_all add: x_def suc)
  then have "LevelBegin level = Some (x - 1) \<and> NodesInLevel level = Some x \<and>
      LevelBegin (level + 1) = Some ((x - 1) + x)"
    using x
    by (simp add: LevelBegin_def NodesInLevel_def sub_int_def cint_def int_range_def
        INT_MIN_def INT_MAX_def)
  then show ?thesis by (simp add: x_def)
qed

theorem LevelBegin_next_witness:
  "(0::int) \<le> 3 \<and> int_range (2 ^ nat (3 + 1)) \<and> LevelBegin 3 = Some 7 \<and> NodesInLevel 3 = Some 8 \<and>
   LevelBegin (3 + 1) = Some 15"
proof -
  have r: "int_range (2 ^ nat (3 + 1))" by (simp add: int_range_def INT_MIN_def INT_MAX_def)
  show ?thesis using LevelBegin_next [of 3, OF _ r] r by simp
qed

section \<open>Properties of the arithmetic of \<open>double\<close>\<close>

lemma expo_bound: "unat (expo d) < 2048"
  using unsigned_less [of "expo d"] by simp

lemma frac_bound: "unat (frac d) < 2 ^ 52"
  using unsigned_less [of "frac d"] by simp

lemma finite_expo: "is_finite d \<Longrightarrow> unat (expo d) \<le> 2046"
proof -
  assume "is_finite d"
  then have "unat (expo d) \<noteq> unat (2047 :: 11 word)"
    unfolding is_finite_def by (simp only: word_unat_eq_iff [symmetric] not_False_eq_True)
  with expo_bound [of d] show ?thesis by simp
qed

lemma expo_zero_iff: "expo d = 0 \<longleftrightarrow> unat (expo d) = 0"
  by (simp add: unat_eq_0)

lemma floorlog_eqI:
  assumes "2 ^ k \<le> n" "n < 2 ^ Suc k"
  shows "floorlog 2 n = Suc k"
proof -
  have "floorlog 2 n \<le> Suc k" using assms(2) by (simp add: floorlog_le_iff)
  moreover have "Suc k \<le> floorlog 2 n" using assms(1) by (intro floorlog_ge_SucI) simp_all
  ultimately show ?thesis by simp
qed

lemma floorlog_scaled:
  assumes "2 ^ 52 \<le> q" "q < 2 ^ 53" "r < 2 ^ sh"
  shows "floorlog 2 (q * 2 ^ sh + r) = 53 + sh"
proof -
  have "2 ^ (52 + sh) \<le> q * 2 ^ sh + r"
  proof -
    have "(2::nat) ^ 52 * 2 ^ sh \<le> q * 2 ^ sh" using assms(1) by (rule mult_right_mono) simp
    then have "(2::nat) ^ 52 * 2 ^ sh \<le> q * 2 ^ sh + r" by (rule trans_le_add1)
    then show ?thesis by (simp only: power_add)
  qed
  moreover have "q * 2 ^ sh + r < 2 ^ Suc (52 + sh)"
  proof -
    have "q + 1 \<le> 2 ^ 53" using assms(2) by simp
    then have "(q + 1) * 2 ^ sh \<le> 2 ^ 53 * 2 ^ sh" by (rule mult_right_mono) simp
    moreover have "q * 2 ^ sh + r < (q + 1) * 2 ^ sh" using assms(3) by (simp add: algebra_simps)
    ultimately have "q * 2 ^ sh + r < 2 ^ 53 * 2 ^ sh" by (rule less_le_trans [rotated])
    moreover have "Suc (52 + sh) = 53 + sh" by simp
    ultimately show ?thesis by (simp only: power_add)
  qed
  ultimately have "floorlog 2 (q * 2 ^ sh + r) = Suc (52 + sh)" by (rule floorlog_eqI)
  then show ?thesis by simp
qed

text \<open>Rounding a magnitude given by its 53 leading bits and the rest.\<close>

lemma round_units_split:
  assumes "2 ^ 52 \<le> q" "q < 2 ^ 53" "r < 2 ^ sh"
  shows "round_units (q * 2 ^ sh + r) 1 =
     (if 2 * r < 2 ^ sh then q else if 2 ^ sh < 2 * r then q + 1
      else if even q then q else q + 1) * 2 ^ sh"
proof -
  have fl: "floorlog 2 (q * 2 ^ sh + r) = 53 + sh" using assms by (rule floorlog_scaled)
  have d: "(q * 2 ^ sh + r) div 2 ^ sh = q" using assms(3) by simp
  have m: "(q * 2 ^ sh + r) mod 2 ^ sh = r" using assms(3) by simp
  show ?thesis using assms(3) by (simp add: round_units_def rne_div_def fl Let_def)
qed

lemma round_units_small:
  assumes "n < 2 ^ 53" shows "round_units n 1 = n"
proof -
  have "floorlog 2 n \<le> 53" using assms by (simp add: floorlog_le_iff)
  then have "floorlog 2 n - 53 = 0" by simp
  then show ?thesis by (simp add: round_units_def rne_div_def Let_def)
qed

lemma round_units_exact:
  assumes "2 ^ 52 \<le> q" "q < 2 ^ 53"
  shows "round_units (q * 2 ^ sh) 1 = q * 2 ^ sh"
  using round_units_split [OF assms, of 0 sh] by simp

lemma encode_normal:
  assumes "2 ^ 52 \<le> q" "q < 2 ^ 53" "sh < 2046"
  shows "encode s (q * 2 ^ sh) = \<lparr>sign = s, expo = of_nat (sh + 1), frac = of_nat (q - 2 ^ 52)\<rparr>"
proof -
  have fl: "floorlog 2 (q * 2 ^ sh) = 53 + sh"
    using floorlog_scaled [OF assms(1,2), of 0 sh] by simp
  have "(2::nat) ^ 52 * 1 \<le> q * 2 ^ sh" using assms(1) by (intro mult_mono) simp_all
  then have ge: "\<not> q * 2 ^ sh < 2 ^ 52" by simp
  show ?thesis using assms(3) ge by (simp add: encode_def fl Let_def)
qed

lemma encode_small:
  assumes "n < 2 ^ 52" shows "encode s n = \<lparr>sign = s, expo = 0, frac = of_nat n\<rparr>"
  using assms by (simp add: encode_def)

lemma units_subnormal: "expo d = 0 \<Longrightarrow> units d = unat (frac d)"
  by (simp add: units_def)

lemma units_normal:
  "expo d \<noteq> 0 \<Longrightarrow> units d = (2 ^ 52 + unat (frac d)) * 2 ^ (unat (expo d) - 1)"
  by (simp add: units_def)

lemma round_units_finite:
  assumes "is_finite d" shows "round_units (units d) 1 = units d"
proof (cases "expo d = 0")
  case True
  then have u: "units d = unat (frac d)" by (rule units_subnormal)
  have "unat (frac d) < 2 ^ 53" using frac_bound [of d] by simp
  then show ?thesis unfolding u by (rule round_units_small)
next
  case False
  then have u: "units d = (2 ^ 52 + unat (frac d)) * 2 ^ (unat (expo d) - 1)"
    by (rule units_normal)
  have "(2::nat) ^ 52 \<le> 2 ^ 52 + unat (frac d)" by (rule le_add1)
  moreover have "(2::nat) ^ 52 + unat (frac d) < 2 ^ 53" using frac_bound [of d] by simp
  ultimately show ?thesis unfolding u by (rule round_units_exact)
qed

lemma encode_units:
  assumes "is_finite d" shows "encode s (units d) = d\<lparr>sign := s\<rparr>"
proof (cases "expo d = 0")
  case True
  have "encode s (unat (frac d)) = \<lparr>sign = s, expo = 0, frac = of_nat (unat (frac d))\<rparr>"
    using frac_bound [of d] by (rule encode_small)
  then show ?thesis using True by (simp add: units_subnormal)
next
  case False
  let ?q = "2 ^ 52 + unat (frac d)" and ?sh = "unat (expo d) - 1"
  have e: "0 < unat (expo d)" using False by (simp add: unat_gt_0)
  have q: "(2::nat) ^ 52 \<le> ?q" "?q < 2 ^ 53" using frac_bound [of d] by simp_all
  have sh: "?sh < 2046" using finite_expo [OF assms] e by simp
  have "encode s (?q * 2 ^ ?sh) = \<lparr>sign = s, expo = of_nat (?sh + 1), frac = of_nat (?q - 2 ^ 52)\<rparr>"
    using q sh by (rule encode_normal)
  moreover have "?sh + 1 = unat (expo d)" using e by simp
  moreover have "?q - 2 ^ 52 = unat (frac d)" by simp
  ultimately have "encode s (?q * 2 ^ ?sh) = \<lparr>sign = s, expo = expo d, frac = frac d\<rparr>"
    by simp
  then show ?thesis using False by (simp add: units_normal)
qed

lemma unat_of_nat_11: "n < 2048 \<Longrightarrow> unat (of_nat n :: 11 word) = n"
  by (simp add: unat_of_nat)

lemma of_nat_11_neq_2047:
  assumes "n < 2047" shows "(of_nat n :: 11 word) \<noteq> 2047"
proof
  assume "(of_nat n :: 11 word) = 2047"
  then have "unat (of_nat n :: 11 word) = unat (2047 :: 11 word)" by (rule arg_cong)
  then show False using assms by (simp add: unat_of_nat_11)
qed

lemma encode_not_nan: "\<not> is_nan (encode s n)"
proof -
  define k where "k = floorlog 2 n - 53"
  have "k < 2046 \<Longrightarrow> (of_nat (k + 1) :: 11 word) \<noteq> 2047"
    by (rule of_nat_11_neq_2047) simp
  then show ?thesis
    unfolding encode_def is_nan_def Let_def k_def [symmetric]
    by (auto simp del: of_nat_add of_nat_Suc)
qed

lemma sunits_nonzero_sign: "sunits d \<noteq> 0 \<Longrightarrow> (sunits d < 0) = sign d"
  by (auto simp: sunits_def split: if_splits)

lemma nat_abs_sunits: "nat \<bar>sunits d\<bar> = units d"
  by (simp add: sunits_def)

lemma finite_not_special: "is_finite d \<Longrightarrow> \<not> is_nan d \<and> \<not> is_infinity d"
  by (simp add: is_finite_def is_nan_def is_infinity_def)

text \<open>An addition whose exact result is a finite datum other than zero returns that datum.\<close>

lemma fadd_exact:
  assumes "is_finite x" "is_finite y" "is_finite z"
    and "sunits x + sunits y = sunits z" "sunits z \<noteq> 0"
  shows "fadd x y = z"
proof -
  have "fadd x y = encode (sunits z < 0) (round_units (nat \<bar>sunits z\<bar>) 1)"
    using assms by (simp add: fadd_def finite_not_special Let_def)
  also have "\<dots> = encode (sign z) (units z)"
    using round_units_finite [OF assms(3)] sunits_nonzero_sign [OF assms(5)]
    by (simp add: nat_abs_sunits)
  also have "\<dots> = z" using assms(3) by (simp add: encode_units)
  finally show ?thesis .
qed

lemma infinity_eq:
  assumes "is_infinity x" "is_infinity y" "sign x = sign y" shows "x = y"
  using assms by (intro double.equality) (simp_all add: is_infinity_def)

lemma fadd_commute: "fadd x y = fadd y x"
proof (cases "is_infinity x \<and> is_infinity y \<and> sign x = sign y")
  case True
  then have "x = y" by (intro infinity_eq) simp_all
  then show ?thesis by simp
next
  case False
  then show ?thesis
    by (auto simp: fadd_def Let_def add.commute conj_commute)
qed

lemma fadd_same_datum: "same_datum (fadd x y) (fadd y x)"
  by (simp add: same_datum_def fadd_commute [of x y])

lemma valof_sum_iff:
  "valof z = valof x + valof y \<longleftrightarrow> sunits z = sunits x + sunits y"
proof -
  have "(a / c = b / c + d / c) = (a = b + d)" if "c \<noteq> 0" for a b c d :: real
    using that by (simp add: field_simps)
  from this [of "2 ^ 1074" "real_of_int (sunits z)" "real_of_int (sunits x)" "real_of_int (sunits y)"]
  have "valof z = valof x + valof y \<longleftrightarrow>
      real_of_int (sunits z) = real_of_int (sunits x) + real_of_int (sunits y)"
    unfolding valof_def by simp
  also have "\<dots> \<longleftrightarrow> sunits z = sunits x + sunits y"
    by (metis of_int_add of_int_eq_iff)
  finally show ?thesis .
qed

lemma fneg_simps:
  "is_finite (fneg y) = is_finite y" "is_nan (fneg y) = is_nan y"
  "is_infinity (fneg y) = is_infinity y" "sunits (fneg y) = - sunits y"
  "sign (fneg y) = (\<not> sign y)" "is_zero (fneg y) = is_zero y" "units (fneg y) = units y"
  by (simp_all add: fneg_def is_finite_def is_nan_def is_infinity_def is_zero_def sunits_def units_def)

lemma deq_refl: "is_finite x \<Longrightarrow> deq x x"
  by (simp add: deq_def finite_not_special)

lemma signed_zero_simps:
  "is_finite (signed_zero s)" "\<not> is_nan (signed_zero s)" "sunits (signed_zero s) = 0"
  "is_zero (signed_zero s)"
  by (simp_all add: signed_zero_def is_finite_def is_nan_def sunits_def units_def is_zero_def)

text \<open>Subtracting an operand from an exact sum gives the other operand back.\<close>

lemma exact_sum_roundtrip:
  assumes "exact_sum x y" shows "deq (fsub (fadd x y) y) x"
proof -
  let ?z = "fadd x y"
  have fin: "is_finite x" "is_finite y" "is_finite ?z"
    and su: "sunits ?z = sunits x + sunits y"
    using assms by (simp_all add: exact_sum_def valof_sum_iff)
  have s: "sunits ?z + sunits (fneg y) = sunits x" using su by (simp add: fneg_simps)
  show ?thesis
  proof (cases "sunits x = 0")
    case True
    then have "fsub ?z y = signed_zero (sign ?z \<and> sign (fneg y))"
      using fin s by (simp add: fsub_def fadd_def [of ?z] finite_not_special fneg_simps Let_def)
    then show ?thesis using True fin(1) by (simp add: deq_def signed_zero_simps finite_not_special)
  next
    case False
    have "fadd ?z (fneg y) = x"
      using fin s False by (intro fadd_exact) (simp_all add: fneg_simps)
    then show ?thesis using fin(1) by (simp add: fsub_def deq_refl)
  qed
qed

lemma units_zero_iff: "is_finite d \<Longrightarrow> units d = 0 \<longleftrightarrow> is_zero d"
  by (auto simp: units_def is_zero_def unat_eq_0)

lemma rne_div_cancel:
  assumes "0 < d" shows "rne_div (n * d) (d * m) = rne_div n m"
proof -
  have q: "(n * d) div (d * m) = n div m" using assms by (simp add: mult.commute [of d m])
  have r: "(n * d) mod (d * m) = (n mod m) * d"
    by (simp add: mult.commute [of d m])
  have c: "2 * ((n mod m) * d) < d * m \<longleftrightarrow> 2 * (n mod m) < m"
    "d * m < 2 * ((n mod m) * d) \<longleftrightarrow> m < 2 * (n mod m)"
    using assms by (simp_all add: mult.commute [of d m] mult.assoc [symmetric])
  show ?thesis unfolding rne_div_def q r Let_def c ..
qed

lemma round_units_cancel:
  assumes "0 < d" shows "round_units (n * d) d = round_units n 1"
proof -
  have "(n * d) div d = n" using assms by simp
  then show ?thesis
    using rne_div_cancel [OF assms, of n] by (simp add: round_units_def Let_def)
qed

text \<open>A division whose exact result is a finite datum returns that datum.\<close>

lemma fdiv_exact:
  assumes "is_finite x" "is_finite y" "is_finite z" "\<not> is_zero x" "\<not> is_zero y"
    and "units x * 2 ^ 1074 = units z * units y"
  shows "fdiv x y = z\<lparr>sign := (sign x \<noteq> sign y)\<rparr>"
proof -
  have pos: "0 < units y" using assms(2,5) by (simp add: units_zero_iff [symmetric])
  have "fdiv x y = encode (sign x \<noteq> sign y) (round_units (units x * 2 ^ 1074) (units y))"
    using assms(1,2,4,5) by (simp add: fdiv_def finite_not_special)
  also have "round_units (units x * 2 ^ 1074) (units y) = round_units (units z) 1"
    unfolding assms(6) using pos by (rule round_units_cancel)
  also have "\<dots> = units z" using assms(3) by (rule round_units_finite)
  also have "encode (sign x \<noteq> sign y) (units z) = z\<lparr>sign := (sign x \<noteq> sign y)\<rparr>"
    using assms(3) by (rule encode_units)
  finally show ?thesis .
qed

text \<open>An addition that rounds, from the 53 leading bits of the exact sum and the rest.\<close>

lemma fadd_rounded:
  assumes "is_finite x" "is_finite y"
    and "nat \<bar>sunits x + sunits y\<bar> = q * 2 ^ sh + r"
    and "2 ^ 52 \<le> q" "q < 2 ^ 53" "r < 2 ^ sh" "sh < 2046"
    and "m = (if 2 * r < 2 ^ sh then q else if 2 ^ sh < 2 * r then q + 1
              else if even q then q else q + 1)"
    and "m < 2 ^ 53"
  shows "fadd x y =
     \<lparr>sign = (sunits x + sunits y < 0), expo = of_nat (sh + 1), frac = of_nat (m - 2 ^ 52)\<rparr>"
proof -
  have "q * 2 ^ sh + r \<noteq> 0" using assms(4) by auto
  then have nz: "sunits x + sunits y \<noteq> 0" using assms(3) by auto
  have "q \<le> m" using assms(8) by simp
  then have m: "2 ^ 52 \<le> m" using assms(4) by simp
  have "fadd x y = encode (sunits x + sunits y < 0) (round_units (nat \<bar>sunits x + sunits y\<bar>) 1)"
    using assms(1,2) nz by (simp add: fadd_def finite_not_special Let_def)
  also have "round_units (nat \<bar>sunits x + sunits y\<bar>) 1 = m * 2 ^ sh"
    unfolding assms(3,8) using assms(4,5,6) by (rule round_units_split)
  also have "encode (sunits x + sunits y < 0) (m * 2 ^ sh) =
      \<lparr>sign = (sunits x + sunits y < 0), expo = of_nat (sh + 1), frac = of_nat (m - 2 ^ 52)\<rparr>"
    using m assms(9,7) by (rule encode_normal)
  finally show ?thesis .
qed

lemmas lit_defs = dbl_def d_zero_def d_one_def d_three_def d_four_def d_five_def d_ten_def
  d_minus_two_def d_2p53_def quiet_nan_def

lemmas lit_eval = lit_defs is_finite_def is_zero_def is_nan_def is_infinity_def sunits_def units_def

lemma fadd_four_one: "fadd d_four d_one = d_five"
  by (rule fadd_exact) (simp_all add: lit_eval)

lemma fdiv_ten_five: "fdiv (fneg d_ten) d_five = d_minus_two"
proof -
  have "fdiv (fneg d_ten) d_five = (dbl False 1024 0)\<lparr>sign := (sign (fneg d_ten) \<noteq> sign d_five)\<rparr>"
    by (rule fdiv_exact) (simp_all add: lit_eval fneg_def)
  then show ?thesis by (simp add: lit_defs fneg_def)
qed

lemma fadd_one_2p53: "fadd d_one d_2p53 = d_2p53"
proof -
  have "fadd d_one d_2p53 =
     \<lparr>sign = (sunits d_one + sunits d_2p53 < 0), expo = of_nat (1075 + 1),
      frac = of_nat (2 ^ 52 - 2 ^ 52)\<rparr>"
    by (rule fadd_rounded [where q = "2 ^ 52" and r = "2 ^ 1074"]) (simp_all add: lit_eval)
  then show ?thesis by (simp add: lit_eval)
qed

text \<open>\<open>0.1 + 0.2\<close> is \<open>0.30000000000000004\<close>: the exact sum is rounded up to an even fraction.\<close>

lemma fadd_tenth_fifth:
  "fadd (dbl False 1019 0x999999999999A) (dbl False 1020 0x999999999999A) =
   dbl False 1021 0x3333333333334"
proof -
  have "fadd (dbl False 1019 0x999999999999A) (dbl False 1020 0x999999999999A) =
     \<lparr>sign = (sunits (dbl False 1019 0x999999999999A) + sunits (dbl False 1020 0x999999999999A) < 0),
      expo = of_nat (1020 + 1), frac = of_nat (0x13333333333334 - 2 ^ 52)\<rparr>"
    by (rule fadd_rounded [where q = "0x13333333333333" and r = "2 ^ 1019"])
      (simp_all add: lit_eval)
  then show ?thesis by (simp add: lit_eval)
qed

lemma fsub_2p53_self: "fsub d_2p53 d_2p53 = d_zero"
  by (simp add: fsub_def fadd_def fneg_def lit_eval signed_zero_def)

lemma fadd_zero_zero: "fadd d_zero d_zero = d_zero"
  by (simp add: fadd_def lit_eval signed_zero_def)

lemma fsub_zero_zero: "fsub d_zero d_zero = d_zero"
  by (simp add: fsub_def fadd_def fneg_def lit_eval signed_zero_def)






subsection \<open>Rounding: error bounds and overflow\<close>

lemma rne_div_cases:
  assumes "0 < d"
  obtains q r where "n = q * d + r" "r < d"
    "rne_div n d = (if 2 * r < d then q else if d < 2 * r then q + 1 else if even q then q else q + 1)"
proof
  show "n = (n div d) * d + n mod d" by simp
  show "n mod d < d" using assms by simp
  show "rne_div n d = (if 2 * (n mod d) < d then n div d else if d < 2 * (n mod d) then n div d + 1
      else if even (n div d) then n div d else n div d + 1)"
    by (simp add: rne_div_def Let_def)
qed

text \<open>A fraction below \<open>c + 1/2\<close> is rounded to at most \<open>c\<close>.\<close>

lemma rne_div_le:
  assumes "0 < d" "2 * n < (2 * c + 1) * d"
  shows "rne_div n d \<le> c"
proof -
  obtain q r where n: "n = q * d + r" and r: "r < d"
    and v: "rne_div n d = (if 2 * r < d then q else if d < 2 * r then q + 1 else if even q then q else q + 1)"
    using assms(1) by (rule rne_div_cases)
  have qc: "q \<le> c"
  proof (rule ccontr)
    assume "\<not> q \<le> c"
    then have "c + 1 \<le> q" by simp
    then have "(c + 1) * d \<le> q * d" by (rule mult_le_mono1)
    then have "(2 * c + 1) * d \<le> 2 * n" unfolding n by (simp add: algebra_simps)
    with assms(2) show False by simp
  qed
  show ?thesis
  proof (cases "q = c")
    case True
    have "2 * r < d" using assms(2) unfolding n True by (simp add: algebra_simps)
    then show ?thesis using True v by simp
  next
    case False
    then have "q + 1 \<le> c" using qc by simp
    then show ?thesis using v by (simp split: if_splits)
  qed
qed

text \<open>A fraction of at least \<open>c - 1/2\<close>, \<open>c\<close> even, is rounded to at least \<open>c\<close>.\<close>

lemma rne_div_ge:
  assumes "0 < d" "(2 * c - 1) * d \<le> 2 * n" "even c"
  shows "c \<le> rne_div n d"
proof (cases "c = 0")
  case True then show ?thesis by simp
next
  case False
  obtain q r where n: "n = q * d + r" and r: "r < d"
    and v: "rne_div n d = (if 2 * r < d then q else if d < 2 * r then q + 1 else if even q then q else q + 1)"
    using assms(1) by (rule rne_div_cases)
  have c1: "2 * c - 1 = 2 * (c - 1) + 1" using False by simp
  have qc: "c - 1 \<le> q"
  proof (rule ccontr)
    assume "\<not> c - 1 \<le> q"
    then have "q + 1 \<le> c - 1" by simp
    then have "(q + 1) * d \<le> (c - 1) * d" by (rule mult_le_mono1)
    moreover have "n < (q + 1) * d" unfolding n using r by simp
    ultimately have "2 * n < 2 * ((c - 1) * d)" by simp
    also have "\<dots> \<le> (2 * (c - 1) + 1) * d" by (simp add: algebra_simps)
    finally show False using assms(2) unfolding c1 by simp
  qed
  show ?thesis
  proof (cases "q = c - 1")
    case True
    have "(2 * q + 1) * d \<le> 2 * (q * d + r)" using assms(2) unfolding c1 n True .
    then have "d \<le> 2 * r" by (simp add: algebra_simps)
    moreover have "odd q" using True assms(3) False by simp
    ultimately have "rne_div n d = q + 1" using v by simp
    then show ?thesis using True False by simp
  next
    case False
    then have "c \<le> q" using qc by simp
    then show ?thesis using v by (simp split: if_splits)
  qed
qed

text \<open>The rounded fraction is within half of the fraction.\<close>

lemma rne_div_bound:
  assumes "0 < d"
  shows "2 * \<bar>int (rne_div n d * d) - int n\<bar> \<le> int d"
proof -
  obtain q r where n: "n = q * d + r" and r: "r < d"
    and v: "rne_div n d = (if 2 * r < d then q else if d < 2 * r then q + 1 else if even q then q else q + 1)"
    using assms(1) by (rule rne_div_cases)
  have "rne_div n d = q \<and> 2 * r \<le> d \<or> rne_div n d = q + 1 \<and> d \<le> 2 * r"
    using v by (auto split: if_splits)
  then show ?thesis
  proof
    assume "rne_div n d = q \<and> 2 * r \<le> d"
    then show ?thesis unfolding n by simp
  next
    assume "rne_div n d = q + 1 \<and> d \<le> 2 * r"
    then show ?thesis unfolding n using r by (simp add: algebra_simps)
  qed
qed

lemma shift_upper: "n < 2 ^ (53 + (floorlog 2 n - 53))"
proof -
  have "floorlog 2 n \<le> 53 + (floorlog 2 n - 53)" by simp
  then show ?thesis by (simp only: floorlog_le_iff) simp
qed

lemma shift_lower:
  assumes "0 < floorlog 2 n - 53" shows "2 ^ (52 + (floorlog 2 n - 53)) \<le> n"
proof -
  have "floorlog 2 n \<noteq> 0" using assms by simp
  then have "0 < n" by (simp add: floorlog_eq_zero_iff)
  then have "2 ^ (floorlog 2 n - 1) \<le> n" using floorlog_bounds [of n 2] by simp
  moreover have "floorlog 2 n - 1 = 52 + (floorlog 2 n - 53)" using assms by simp
  ultimately show ?thesis by (simp only:)
qed

lemma num_upper:
  assumes "0 < den" "num div den < (2::nat) ^ e"
  shows "num < 2 ^ e * den"
  using assms by (simp add: div_less_iff_less_mult)

lemma num_lower:
  assumes "(2::nat) ^ e \<le> num div den"
  shows "2 ^ e * den \<le> num"
proof -
  have "2 ^ e * den \<le> (num div den) * den" using assms by (rule mult_le_mono1)
  also have "\<dots> \<le> num" by simp
  finally show ?thesis .
qed

text \<open>The significand of a rounded magnitude has at most 53 bits, and exactly 53 above the first binade.\<close>

lemma round_mantissa_upper:
  assumes "0 < den"
  shows "rne_div num (den * 2 ^ (floorlog 2 (num div den) - 53)) \<le> 2 ^ 53"
proof -
  let ?sh = "floorlog 2 (num div den) - 53"
  have "num < 2 ^ (53 + ?sh) * den" using assms shift_upper by (rule num_upper)
  then have "num < 2 ^ 53 * (den * 2 ^ ?sh)" by (simp only: power_add mult_ac)
  then have "2 * num < (2 * 2 ^ 53 + 1) * (den * 2 ^ ?sh)" by (simp add: algebra_simps)
  moreover have "0 < den * 2 ^ ?sh" using assms by simp
  ultimately show ?thesis by (intro rne_div_le)
qed

lemma round_mantissa_lower:
  assumes "0 < den" "0 < floorlog 2 (num div den) - 53"
  shows "2 ^ 52 \<le> rne_div num (den * 2 ^ (floorlog 2 (num div den) - 53))"
proof -
  let ?sh = "floorlog 2 (num div den) - 53"
  have "2 ^ (52 + ?sh) * den \<le> num" using shift_lower [OF assms(2)] by (rule num_lower)
  then have "2 ^ 52 * (den * 2 ^ ?sh) \<le> num" by (simp only: power_add mult_ac)
  then have "(2 * 2 ^ 52 - 1) * (den * 2 ^ ?sh) \<le> 2 * num" by (simp add: algebra_simps)
  moreover have "0 < den * 2 ^ ?sh" using assms by simp
  ultimately show ?thesis by (intro rne_div_ge) simp_all
qed

lemma round_units_rne:
  "round_units num den =
     rne_div num (den * 2 ^ (floorlog 2 (num div den) - 53)) * 2 ^ (floorlog 2 (num div den) - 53)"
  by (simp add: round_units_def Let_def)

text \<open>The error of a rounding is at most half of the distance between neighbouring data.\<close>

lemma round_units_half:
  assumes "0 < den"
  shows "2 * \<bar>int (round_units num den * den) - int num\<bar>
       \<le> int (den * 2 ^ (floorlog 2 (num div den) - 53))"
proof -
  let ?D = "den * 2 ^ (floorlog 2 (num div den) - 53)"
  have "0 < ?D" using assms by simp
  then have "2 * \<bar>int (rne_div num ?D * ?D) - int num\<bar> \<le> int ?D" by (rule rne_div_bound)
  moreover have "rne_div num ?D * ?D = round_units num den * den"
    unfolding round_units_rne by (simp only: mult_ac)
  ultimately show ?thesis by (simp only:)
qed


lemma encode_sign: "sign (encode s n) = s"
  by (simp add: encode_def Let_def)

lemma floorlog_less_iff: "floorlog 2 n \<le> k \<longleftrightarrow> n < 2 ^ k"
  by (simp add: floorlog_le_iff)

text \<open>A rounded magnitude overflows exactly from \<open>2 ^ 2098\<close> units, that is \<open>2 ^ 1024\<close>, on.\<close>

lemma encode_finite_iff: "is_finite (encode s n) \<longleftrightarrow> n < 2 ^ 2098"
proof (cases "n < 2 ^ 52")
  case True
  have "(2::nat) ^ 52 \<le> 2 ^ 2098" by (rule power_increasing) simp_all
  then have "n < 2 ^ 2098" using True by (rule less_le_trans [rotated])
  then show ?thesis using True by (simp add: encode_def is_finite_def)
next
  case False
  define k where "k = floorlog 2 n - 53"
  have iff: "k < 2046 \<longleftrightarrow> n < 2 ^ 2098"
  proof -
    have "k < 2046 \<longleftrightarrow> floorlog 2 n \<le> 2098" unfolding k_def by auto
    then show ?thesis by (simp only: floorlog_less_iff)
  qed
  have "k < 2046 \<Longrightarrow> (of_nat (k + 1) :: 11 word) \<noteq> 2047"
    by (rule of_nat_11_neq_2047) simp
  then have "is_finite (encode s n) \<longleftrightarrow> k < 2046"
    using False unfolding encode_def is_finite_def Let_def k_def [symmetric]
    by (auto simp del: of_nat_add of_nat_Suc)
  then show ?thesis using iff by simp
qed

lemma unat_of_nat_52: "n < 2 ^ 52 \<Longrightarrow> unat (of_nat n :: 52 word) = n"
  by (simp add: unat_of_nat)

lemma units_encode_small:
  assumes "n < 2 ^ 52" shows "units (encode s n) = n"
  using assms by (simp add: encode_small units_def unat_of_nat_52)

lemma units_encode_normal:
  assumes "2 ^ 52 \<le> q" "q < 2 ^ 53" "sh < 2046"
  shows "units (encode s (q * 2 ^ sh)) = q * 2 ^ sh"
proof -
  have e: "unat (of_nat (sh + 1) :: 11 word) = sh + 1" using assms(3) by (intro unat_of_nat_11) simp
  then have ne: "(of_nat (sh + 1) :: 11 word) \<noteq> 0" by (metis Suc_eq_plus1 nat.simps(3) unat_0)
  have "q - 2 ^ 52 < 2 ^ 52" using assms(2) by simp
  then have f: "unat (of_nat (q - 2 ^ 52) :: 52 word) = q - 2 ^ 52" by (rule unat_of_nat_52)
  have "units (encode s (q * 2 ^ sh)) = (2 ^ 52 + (q - 2 ^ 52)) * 2 ^ (sh + 1 - 1)"
    unfolding encode_normal [OF assms] units_def using ne e f
    by (simp del: of_nat_add of_nat_Suc of_nat_diff)
  then show ?thesis using assms(1) by simp
qed

lemma pow2_exp_less:
  assumes "(2::nat) ^ a * 2 ^ k < 2 ^ b" shows "a + k < b"
proof -
  have "(2::nat) ^ (a + k) < 2 ^ b" using assms by (simp only: power_add)
  then show ?thesis by (simp only: power_strict_increasing_iff)
qed

lemma units_encode_repr:
  assumes "2 ^ 52 \<le> q" "q \<le> 2 ^ 53" "q * 2 ^ k < 2 ^ 2098"
  shows "units (encode s (q * 2 ^ k)) = q * 2 ^ k"
proof (cases "q = 2 ^ 53")
  case False
  then have q: "q < 2 ^ 53" using assms(2) by simp
  have "(2::nat) ^ 52 * 2 ^ k \<le> q * 2 ^ k" using assms(1) by (rule mult_le_mono1)
  then have "(2::nat) ^ 52 * 2 ^ k < 2 ^ 2098" using assms(3) by (rule le_less_trans)
  then have "52 + k < 2098" by (rule pow2_exp_less)
  then have "k < 2046" by simp
  with assms(1) q show ?thesis by (rule units_encode_normal)
next
  case True
  have e: "q * 2 ^ k = 2 ^ 52 * 2 ^ (k + 1)" unfolding True by simp
  then have "(2::nat) ^ 52 * 2 ^ (k + 1) < 2 ^ 2098" using assms(3) by (simp only:)
  then have "52 + (k + 1) < 2098" by (rule pow2_exp_less)
  then have "k + 1 < 2046" by simp
  then have "units (encode s (2 ^ 52 * 2 ^ (k + 1))) = 2 ^ 52 * 2 ^ (k + 1)"
    by (intro units_encode_normal) simp_all
  then show ?thesis by (simp only: e)
qed

text \<open>A rounded magnitude within the finite range is the magnitude of its datum.\<close>

lemma units_encode_round:
  assumes "0 < den" "round_units num den < 2 ^ 2098"
  shows "units (encode s (round_units num den)) = round_units num den"
proof -
  let ?sh = "floorlog 2 (num div den) - 53"
  let ?m = "rne_div num (den * 2 ^ ?sh)"
  have r: "round_units num den = ?m * 2 ^ ?sh" by (rule round_units_rne)
  have up: "?m \<le> 2 ^ 53" using assms(1) by (rule round_mantissa_upper)
  show ?thesis
  proof (cases "2 ^ 52 \<le> ?m")
    case True
    then show ?thesis using up assms(2) unfolding r by (rule units_encode_repr)
  next
    case False
    then have "\<not> 0 < ?sh" using round_mantissa_lower [OF assms(1)] by blast
    then have "round_units num den = ?m" unfolding r by simp
    moreover have "?m < 2 ^ 52" using False by simp
    ultimately show ?thesis by (simp only: units_encode_small)
  qed
qed

text \<open>
  Overflow: the rounding reaches \<open>2 ^ 2098\<close> units exactly when the fraction is at least the
  largest finite magnitude plus half of the last step, \<open>2 ^ 2098 - 2 ^ 2044\<close> units.
\<close>

lemma round_units_overflow_iff:
  assumes "0 < den"
  shows "round_units num den < 2 ^ 2098 \<longleftrightarrow> num < (2 ^ 2098 - 2 ^ 2044) * den"
proof -
  let ?k = "floorlog 2 (num div den)"
  let ?sh = "?k - 53"
  let ?D = "den * 2 ^ ?sh"
  let ?m = "rne_div num ?D"
  have r: "round_units num den = ?m * 2 ^ ?sh" by (rule round_units_rne)
  have D: "0 < ?D" using assms by simp
  have up: "?m \<le> 2 ^ 53" using assms by (rule round_mantissa_upper)
  have T: "(2::nat) ^ 2098 - 2 ^ 2044 = (2 ^ 54 - 1) * 2 ^ 2044" by simp
  show ?thesis
  proof
    assume lt: "num < (2 ^ 2098 - 2 ^ 2044) * den"
    then have "num div den < 2 ^ 2098 - 2 ^ 2044" using assms by (simp only: div_less_iff_less_mult)
    then have "num div den < 2 ^ 2098" by simp
    then have "?k \<le> 2098" by (simp only: floorlog_less_iff)
    then have sh: "?sh \<le> 2045" by simp
    show "round_units num den < 2 ^ 2098"
    proof (cases "?sh = 2045")
      case True
      have "2 * num < 2 * ((2 ^ 54 - 1) * 2 ^ 2044 * den)" using lt unfolding T by simp
      also have "\<dots> = (2 * (2 ^ 53 - 1) + 1) * (den * 2 ^ 2045)" by simp
      finally have "2 * num < (2 * (2 ^ 53 - 1) + 1) * ?D" by (simp only: True)
      with D have "?m \<le> 2 ^ 53 - 1" by (rule rne_div_le)
      then have "?m * 2 ^ 2045 \<le> (2 ^ 53 - 1) * 2 ^ 2045" by (rule mult_le_mono1)
      also have "\<dots> < (2::nat) ^ 2098" by simp
      finally show ?thesis unfolding r by (simp only: True)
    next
      case False
      then have "?sh \<le> 2044" using sh by simp
      then have "(2::nat) ^ ?sh \<le> 2 ^ 2044" by (intro power_increasing) simp_all
      with up have "?m * 2 ^ ?sh \<le> 2 ^ 53 * 2 ^ 2044" by (rule mult_le_mono)
      also have "\<dots> < (2::nat) ^ 2098" by simp
      finally show ?thesis unfolding r .
    qed
  next
    assume fin: "round_units num den < 2 ^ 2098"
    show "num < (2 ^ 2098 - 2 ^ 2044) * den"
    proof (rule ccontr)
      assume "\<not> num < (2 ^ 2098 - 2 ^ 2044) * den"
      then have ge: "(2 ^ 54 - 1) * 2 ^ 2044 * den \<le> num" unfolding T by simp
      have "(2::nat) ^ 2097 * den \<le> (2 ^ 54 - 1) * 2 ^ 2044 * den" by simp
      then have "2 ^ 2097 * den \<le> num" using ge by (rule le_trans)
      then have "\<not> num div den < 2 ^ 2097" using assms by (simp only: div_less_iff_less_mult)
      then have "\<not> ?k \<le> 2097" by (simp only: floorlog_less_iff not_False_eq_True)
      then have sh: "2045 \<le> ?sh" by simp
      then have pos: "0 < ?sh" by simp
      have lo: "2 ^ 52 \<le> ?m" using assms pos by (rule round_mantissa_lower)
      have "2 ^ 2098 \<le> ?m * 2 ^ ?sh"
      proof (cases "?sh = 2045")
        case True
        have "(2 * 2 ^ 53 - 1) * (den * 2 ^ 2045) = 2 * ((2 ^ 54 - 1) * 2 ^ 2044 * den)" by simp
        also have "\<dots> \<le> 2 * num" using ge by simp
        finally have "(2 * 2 ^ 53 - 1) * ?D \<le> 2 * num" by (simp only: True)
        with D have "2 ^ 53 \<le> ?m" by (rule rne_div_ge) simp
        then have "2 ^ 53 * 2 ^ 2045 \<le> ?m * 2 ^ 2045" by (rule mult_le_mono1)
        moreover have "(2::nat) ^ 2098 = 2 ^ 53 * 2 ^ 2045" by simp
        ultimately show ?thesis by (simp only: True)
      next
        case False
        then have "2046 \<le> ?sh" using sh by simp
        then have "(2::nat) ^ 2046 \<le> 2 ^ ?sh" by (intro power_increasing) simp_all
        with lo have "2 ^ 52 * 2 ^ 2046 \<le> ?m * 2 ^ ?sh" by (rule mult_le_mono)
        moreover have "(2::nat) ^ 2098 = 2 ^ 52 * 2 ^ 2046" by simp
        ultimately show ?thesis by (simp only:)
      qed
      with fin show False unfolding r by simp
    qed
  qed
qed

subsection \<open>Sums and quotients of finite data\<close>

lemma fdiv_finite:
  assumes "is_finite x" "is_finite y" "\<not> is_zero x" "\<not> is_zero y"
  shows "fdiv x y = encode (sign x \<noteq> sign y) (round_units (units x * 2 ^ 1074) (units y))"
  using assms by (simp add: fdiv_def finite_not_special)

lemma units_pos: "is_finite y \<Longrightarrow> \<not> is_zero y \<Longrightarrow> 0 < units y"
  by (simp add: units_zero_iff [symmetric])

text \<open>The quotient of finite data overflows exactly when the rounded quotient does.\<close>

lemma fdiv_finite_iff:
  assumes "is_finite x" "is_finite y" "\<not> is_zero x" "\<not> is_zero y"
  shows "is_finite (fdiv x y) \<longleftrightarrow> units x * 2 ^ 1074 < (2 ^ 2098 - 2 ^ 2044) * units y"
  unfolding fdiv_finite [OF assms] encode_finite_iff
  using units_pos [OF assms(2,4)] by (rule round_units_overflow_iff)



text \<open>An integer magnitude is rounded with an error of at most \<open>2 powr -53\<close> of it.\<close>

lemma round_units_int_relative:
  "2 ^ 53 * \<bar>int (round_units n 1) - int n\<bar> \<le> int n"
proof (cases "floorlog 2 n - 53 = 0")
  case True
  then have "round_units n 1 = n" by (simp add: round_units_def rne_div_def Let_def)
  then show ?thesis by simp
next
  case False
  let ?sh = "floorlog 2 (n div 1) - 53"
  let ?e = "\<bar>int (round_units n 1 * 1) - int n\<bar>"
  have pos: "0 < ?sh" using False by simp
  have h: "2 * ?e \<le> int (1 * 2 ^ ?sh)" by (rule round_units_half) simp
  have "2 ^ (52 + ?sh) * 1 \<le> n" using pos by (intro num_lower shift_lower)
  then have "2 ^ 52 * (1 * 2 ^ ?sh) \<le> n" by (simp only: power_add mult_ac)
  then have "2 ^ 52 * int (1 * 2 ^ ?sh) \<le> int n"
    by (metis of_nat_le_iff of_nat_mult of_nat_numeral of_nat_power)
  moreover have "2 ^ 52 * (2 * ?e) \<le> 2 ^ 52 * int (1 * 2 ^ ?sh)"
    using h by (rule mult_left_mono) simp
  ultimately show ?thesis by simp
qed

lemma fadd_finite:
  assumes "is_finite x" "is_finite y" "sunits x + sunits y \<noteq> 0"
  shows "fadd x y = encode (sunits x + sunits y < 0) (round_units (nat \<bar>sunits x + sunits y\<bar>) 1)"
  using assms by (simp add: fadd_def finite_not_special Let_def)

lemma fadd_zero_sum:
  assumes "is_finite x" "is_finite y" "sunits x + sunits y = 0"
  shows "fadd x y = signed_zero (sign x \<and> sign y)"
  using assms by (simp add: fadd_def finite_not_special Let_def)

lemma sunits_encode:
  assumes "units (encode b n) = n"
  shows "sunits (encode b n) = (if b then - int n else int n)"
  unfolding sunits_def [of "encode b n"] assms encode_sign ..

lemma fadd_sunits:
  assumes "is_finite x" "is_finite y" "is_finite (fadd x y)" "sunits x + sunits y \<noteq> 0"
  shows "sunits (fadd x y) =
     (if sunits x + sunits y < 0 then - int (round_units (nat \<bar>sunits x + sunits y\<bar>) 1)
      else int (round_units (nat \<bar>sunits x + sunits y\<bar>) 1))"
proof -
  let ?n = "nat \<bar>sunits x + sunits y\<bar>"
  have "round_units ?n 1 < 2 ^ 2098"
    using assms(3) unfolding fadd_finite [OF assms(1,2,4)] encode_finite_iff .
  then have "units (encode (sunits x + sunits y < 0) (round_units ?n 1)) = round_units ?n 1"
    by (intro units_encode_round) simp_all
  then show ?thesis
    unfolding fadd_finite [OF assms(1,2,4)] by (rule sunits_encode)
qed

text \<open>A finite sum differs from the exact sum by at most \<open>2 powr -53\<close> of the exact sum.\<close>

lemma fadd_error_units:
  assumes "is_finite x" "is_finite y" "is_finite (fadd x y)"
  shows "2 ^ 53 * \<bar>sunits (fadd x y) - (sunits x + sunits y)\<bar> \<le> \<bar>sunits x + sunits y\<bar>"
proof (cases "sunits x + sunits y = 0")
  case True
  then show ?thesis using assms by (simp add: fadd_zero_sum signed_zero_simps)
next
  case False
  let ?S = "sunits x + sunits y"
  have b: "2 ^ 53 * \<bar>int (round_units (nat \<bar>?S\<bar>) 1) - int (nat \<bar>?S\<bar>)\<bar> \<le> int (nat \<bar>?S\<bar>)"
    by (rule round_units_int_relative)
  show ?thesis
  proof (cases "?S < 0")
    case True
    then have "\<bar>- int (round_units (nat \<bar>?S\<bar>) 1) - ?S\<bar> = \<bar>int (round_units (nat \<bar>?S\<bar>) 1) - int (nat \<bar>?S\<bar>)\<bar>"
      by simp
    then show ?thesis using b True unfolding fadd_sunits [OF assms False] by simp
  next
    case False
    then have "\<bar>int (round_units (nat \<bar>?S\<bar>) 1) - ?S\<bar> = \<bar>int (round_units (nat \<bar>?S\<bar>) 1) - int (nat \<bar>?S\<bar>)\<bar>"
      by simp
    then show ?thesis using b False unfolding fadd_sunits [OF assms \<open>?S \<noteq> 0\<close>] by simp
  qed
qed

subsection \<open>The bounds over the real numbers\<close>




lemma valof_signed:
  "valof d = (if sign d then - (real (units d) / 2 ^ 1074) else real (units d) / 2 ^ 1074)"
  by (simp add: valof_def sunits_def)

lemma valof_fneg: "valof (fneg x) = - valof x"
  by (simp add: valof_def fneg_simps)



lemma valof_sum: "valof x + valof y = real_of_int (sunits x + sunits y) / 2 ^ 1074"
  by (simp add: valof_def add_divide_distrib)

lemma valof_sum_zero_iff: "valof x + valof y = 0 \<longleftrightarrow> sunits x + sunits y = 0"
proof -
  have "valof x + valof y = 0 \<longleftrightarrow> real_of_int (sunits x + sunits y) = 0"
    unfolding valof_sum by simp
  then show ?thesis by (simp only: of_int_eq_0_iff)
qed


lemma fadd_nonzero:
  assumes "is_finite x" "is_finite y" "is_finite (fadd x y)" "valof x + valof y \<noteq> 0"
  shows "\<not> is_zero (fadd x y)"
proof
  assume "is_zero (fadd x y)"
  then have z: "sunits (fadd x y) = 0" using assms(3) by (simp add: sunits_def units_zero_iff)
  define S where "S = sunits x + sunits y"
  have "2 ^ 53 * \<bar>sunits (fadd x y) - S\<bar> \<le> \<bar>S\<bar>"
    unfolding S_def using assms(1-3) by (rule fadd_error_units)
  then have "2 ^ 53 * \<bar>S\<bar> \<le> \<bar>S\<bar>" unfolding z by simp
  then have "9007199254740992 * \<bar>S\<bar> \<le> \<bar>S\<bar>" by simp
  then have "S = 0" by arith
  then show False using assms(4) by (simp add: valof_sum_zero_iff S_def)
qed


subsection \<open>The leaf value\<close>












lemma abs_valof: "\<bar>valof d\<bar> = real (units d) / 2 ^ 1074"
  by (simp add: valof_signed)

lemma threshold_real_iff:
  "\<bar>valof x\<bar> < (2 ^ 1024 - 2 ^ 970) * \<bar>valof y\<bar> \<longleftrightarrow>
   units x * 2 ^ 1074 < (2 ^ 2098 - 2 ^ 2044) * units y"
proof -
  define c T :: real where "c = 2 ^ 1074" and "T = 2 ^ 1024 - 2 ^ 970"
  have c: "0 < c" by (simp add: c_def)
  have Tc: "T * c = real (2 ^ 2098 - 2 ^ 2044)" by (simp add: c_def T_def)
  have "\<bar>valof x\<bar> < T * \<bar>valof y\<bar> \<longleftrightarrow> real (units x) / c < T * (real (units y) / c)"
    by (simp add: abs_valof c_def)
  also have "\<dots> \<longleftrightarrow> real (units x) * c < (T * c) * real (units y)"
    using c by (simp add: field_simps)
  also have "\<dots> \<longleftrightarrow> real (units x * 2 ^ 1074) < real ((2 ^ 2098 - 2 ^ 2044) * units y)"
    unfolding Tc by (simp add: c_def)
  also have "\<dots> \<longleftrightarrow> units x * 2 ^ 1074 < (2 ^ 2098 - 2 ^ 2044) * units y"
    by (rule of_nat_less_iff)
  finally show ?thesis unfolding T_def .
qed

lemma quiet_nan_is_nan: "is_nan quiet_nan" "\<not> is_finite quiet_nan"
  by (simp_all add: quiet_nan_def dbl_def is_nan_def is_finite_def)

lemma signed_infinity_simps:
  "\<not> is_nan (signed_infinity s)" "\<not> is_finite (signed_infinity s)"
  by (simp_all add: signed_infinity_def is_nan_def is_finite_def)

lemma class_cases:
  "is_nan d \<or> is_infinity d \<or> is_finite d"
  "is_nan d \<Longrightarrow> \<not> is_infinity d \<and> \<not> is_finite d \<and> \<not> is_zero d"
  "is_infinity d \<Longrightarrow> \<not> is_nan d \<and> \<not> is_finite d \<and> \<not> is_zero d"
  "is_zero d \<Longrightarrow> is_finite d"
  by (auto simp: is_nan_def is_infinity_def is_finite_def is_zero_def)

text \<open>When a quotient is a NaN.\<close>

lemma fdiv_nan_iff:
  "is_nan (fdiv x y) \<longleftrightarrow>
     is_nan x \<or> is_nan y \<or> (is_zero x \<and> is_zero y) \<or> (is_infinity x \<and> is_infinity y)"
  using class_cases(2,3) [of x] class_cases(2,3) [of y]
  by (auto simp: fdiv_def quiet_nan_is_nan signed_infinity_simps signed_zero_simps encode_not_nan)

text \<open>When a quotient is finite.\<close>

lemma fdiv_finite_full:
  "is_finite (fdiv x y) \<longleftrightarrow>
     is_finite x \<and> \<not> is_nan y \<and> \<not> is_zero y \<and>
     (is_infinity y \<or> \<bar>valof x\<bar> < (2 ^ 1024 - 2 ^ 970) * \<bar>valof y\<bar>)"
proof -
  consider (nan) "is_nan x \<or> is_nan y"
    | (infx) "\<not> is_nan x" "\<not> is_nan y" "is_infinity x"
    | (infy) "is_finite x" "is_infinity y"
    | (zeroy) "is_finite x" "is_finite y" "is_zero y"
    | (zerox) "is_finite x" "is_finite y" "\<not> is_zero y" "is_zero x"
    | (num) "is_finite x" "is_finite y" "\<not> is_zero y" "\<not> is_zero x"
    using class_cases(1) [of x] class_cases(1) [of y] by blast
  then show ?thesis
  proof cases
    case nan
    then show ?thesis using class_cases(2) [of x] by (auto simp: fdiv_def quiet_nan_is_nan)
  next
    case infx
    then show ?thesis using class_cases(3) [of x]
      by (simp add: fdiv_def quiet_nan_is_nan signed_infinity_simps)
  next
    case infy
    then show ?thesis using class_cases(3) [of y]
      by (simp add: fdiv_def finite_not_special signed_zero_simps)
  next
    case zeroy
    then show ?thesis
      by (simp add: fdiv_def finite_not_special quiet_nan_is_nan signed_infinity_simps)
  next
    case zerox
    have "0 < units y" using zerox(2,3) by (rule units_pos)
    then have "\<not> units x * 2 ^ 1074 < (2 ^ 2098 - 2 ^ 2044) * units y \<Longrightarrow> False"
      using zerox(1,4) by (simp add: units_zero_iff [symmetric])
    then have "\<bar>valof x\<bar> < (2 ^ 1024 - 2 ^ 970) * \<bar>valof y\<bar>"
      unfolding threshold_real_iff by blast
    then show ?thesis using zerox by (simp add: fdiv_def finite_not_special signed_zero_simps)
  next
    case num
    have "is_finite (fdiv x y) \<longleftrightarrow> \<bar>valof x\<bar> < (2 ^ 1024 - 2 ^ 970) * \<bar>valof y\<bar>"
      unfolding threshold_real_iff using num(1,2,4,3) by (rule fdiv_finite_iff)
    then show ?thesis using num by (simp add: finite_not_special)
  qed
qed

text \<open>The double sum of two finite data is zero exactly when the real sum is.\<close>

lemma fadd_zero_iff:
  assumes "is_finite x" "is_finite y"
  shows "is_zero (fadd x y) \<longleftrightarrow> valof x + valof y = 0"
proof
  assume z: "is_zero (fadd x y)"
  then have "is_finite (fadd x y)" by (rule class_cases(4))
  with assms have "valof x + valof y \<noteq> 0 \<Longrightarrow> \<not> is_zero (fadd x y)" by (rule fadd_nonzero)
  with z show "valof x + valof y = 0" by blast
next
  assume "valof x + valof y = 0"
  then have "sunits x + sunits y = 0" by (simp only: valof_sum_zero_iff)
  with assms have "fadd x y = signed_zero (sign x \<and> sign y)" by (rule fadd_zero_sum)
  then show "is_zero (fadd x y)" by (simp add: signed_zero_simps)
qed

text \<open>
  Claim C6 as stated fails: a result that is not finite is not confined to a zero
  \<open>H + alpha\<close>. With \<open>G = 2 ^ 1023\<close>, \<open>H = 0.25\<close> and \<open>alpha = 0.0\<close> every operand is finite
  and \<open>H + alpha\<close> is not zero, yet the quotient overflows and the result is not finite; and
  with a NaN for \<open>G\<close> and \<open>H + alpha = 1.0\<close> the result is a NaN.
\<close>

theorem CalculateLeafValue_overflow_counterexample:
  "is_finite d_2p1023 \<and> is_finite (fadd d_quarter d_zero) \<and> \<not> is_zero (fadd d_quarter d_zero) \<and>
   \<not> is_finite (CalculateLeafValue d_2p1023 d_quarter d_zero) \<and>
   \<not> is_zero (fadd d_one d_zero) \<and> is_nan (CalculateLeafValue quiet_nan d_one d_zero)"
proof -
  have s: "fadd d_quarter d_zero = d_quarter" "fadd d_one d_zero = d_one"
    by (rule fadd_exact; simp add: lit_eval d_quarter_def)+
  have f: "is_finite d_2p1023" "is_finite d_quarter" "\<not> is_zero d_quarter" "\<not> is_zero d_2p1023"
    "\<not> is_zero d_one"
    by (simp_all add: lit_eval d_quarter_def d_2p1023_def)
  have "is_finite (fdiv (fneg d_2p1023) d_quarter) \<longleftrightarrow>
      units (fneg d_2p1023) * 2 ^ 1074 < (2 ^ 2098 - 2 ^ 2044) * units d_quarter"
    using f by (intro fdiv_finite_iff) (simp_all add: fneg_simps)
  then have "\<not> is_finite (fdiv (fneg d_2p1023) d_quarter)"
    by (simp add: fneg_simps) (simp add: lit_eval d_quarter_def d_2p1023_def)
  moreover have "is_nan (fdiv (fneg quiet_nan) d_one)"
    by (simp add: fdiv_nan_iff fneg_simps quiet_nan_is_nan)
  ultimately show ?thesis using f by (simp add: CalculateLeafValue_def s)
qed

text \<open>
  Claim C6, amended. \<open>CalculateLeafValue\<close> returns a datum for every argument and raises
  nothing. For finite \<open>H\<close> and \<open>alpha\<close> the computed \<open>H + alpha\<close> is zero exactly when the real
  sum is zero. When \<open>H + alpha\<close> is zero the result is never finite. The result is a NaN
  exactly when \<open>G\<close> or \<open>H + alpha\<close> is a NaN, both are zero, or both are infinite. The result
  is finite exactly when \<open>G\<close> is finite, \<open>H + alpha\<close> is neither a NaN nor zero, and either
  \<open>H + alpha\<close> is infinite or \<open>|G| < (2 ^ 1024 - 2 ^ 970) * |H + alpha|\<close>; from that bound on
  the quotient overflows to an infinity.
\<close>

theorem CalculateLeafValue_classes:
  "(is_finite H \<and> is_finite alpha \<longrightarrow>
      (is_zero (fadd H alpha) \<longleftrightarrow> valof H + valof alpha = 0)) \<and>
   (is_zero (fadd H alpha) \<longrightarrow> \<not> is_finite (CalculateLeafValue G H alpha)) \<and>
   (is_nan (CalculateLeafValue G H alpha) \<longleftrightarrow>
      is_nan G \<or> is_nan (fadd H alpha) \<or> (is_zero G \<and> is_zero (fadd H alpha)) \<or>
      (is_infinity G \<and> is_infinity (fadd H alpha))) \<and>
   (is_finite (CalculateLeafValue G H alpha) \<longleftrightarrow>
      is_finite G \<and> \<not> is_nan (fadd H alpha) \<and> \<not> is_zero (fadd H alpha) \<and>
      (is_infinity (fadd H alpha) \<or>
       \<bar>valof G\<bar> < (2 ^ 1024 - 2 ^ 970) * \<bar>valof (fadd H alpha)\<bar>))"
proof (intro conjI impI)
  assume "is_finite H \<and> is_finite alpha"
  then show "is_zero (fadd H alpha) \<longleftrightarrow> valof H + valof alpha = 0"
    by (intro fadd_zero_iff) simp_all
next
  assume "is_zero (fadd H alpha)"
  then show "\<not> is_finite (CalculateLeafValue G H alpha)"
    by (simp add: CalculateLeafValue_def fdiv_finite_full)
next
  show "is_nan (CalculateLeafValue G H alpha) \<longleftrightarrow>
      is_nan G \<or> is_nan (fadd H alpha) \<or> (is_zero G \<and> is_zero (fadd H alpha)) \<or>
      (is_infinity G \<and> is_infinity (fadd H alpha))"
    by (simp add: CalculateLeafValue_def fdiv_nan_iff fneg_simps)
next
  show "is_finite (CalculateLeafValue G H alpha) \<longleftrightarrow>
      is_finite G \<and> \<not> is_nan (fadd H alpha) \<and> \<not> is_zero (fadd H alpha) \<and>
      (is_infinity (fadd H alpha) \<or>
       \<bar>valof G\<bar> < (2 ^ 1024 - 2 ^ 970) * \<bar>valof (fadd H alpha)\<bar>)"
    by (simp add: CalculateLeafValue_def fdiv_finite_full fneg_simps valof_fneg)
qed

theorem CalculateLeafValue_classes_witness:
  "is_finite d_zero \<and> is_zero (fadd d_zero d_zero) \<and> valof d_zero + valof d_zero = 0 \<and>
   \<not> is_finite (CalculateLeafValue d_one d_zero d_zero) \<and>
   \<not> is_nan (CalculateLeafValue d_one d_zero d_zero) \<and>
   is_finite (CalculateLeafValue d_ten d_four d_one) \<and>
   \<bar>valof d_ten\<bar> < (2 ^ 1024 - 2 ^ 970) * \<bar>valof (fadd d_four d_one)\<bar>"
proof -
  have z: "is_finite d_zero" "is_zero (fadd d_zero d_zero)" "\<not> is_nan (fadd d_zero d_zero)"
    by (simp_all add: fadd_zero_zero) (simp_all add: lit_eval)
  have o: "\<not> is_nan d_one" "\<not> is_zero d_one" "\<not> is_infinity d_one"
    by (simp_all add: lit_eval)
  have f: "is_finite (CalculateLeafValue d_ten d_four d_one)" "\<not> is_infinity (fadd d_four d_one)"
    by (simp_all add: CalculateLeafValue_def fadd_four_one fdiv_ten_five) (simp_all add: lit_eval)
  show ?thesis
    using CalculateLeafValue_classes [of d_zero d_zero d_one] CalculateLeafValue_classes [of d_four d_one d_ten] z o f
    by blast
qed

lemma exact_sum_four_one: "exact_sum d_four d_one"
  unfolding exact_sum_def valof_sum_iff fadd_four_one by (simp add: lit_eval)

text \<open>
  Claim C9 as stated fails. \<open>1.0 + 2 ^ 53\<close> lies half way between two neighbouring data and
  is rounded to \<open>2 ^ 53\<close>, so for the pairs \<open>(1.0, 0.0)\<close> and \<open>(2 ^ 53, 0.0)\<close> the pair
  \<open>(a + b) - b\<close> is \<open>(0.0, 0.0)\<close>, which is not equal to \<open>a\<close>.
\<close>

theorem GPair_roundtrip_counterexample:
  "operator_minus (operator_plus pair_one pair_2p53) pair_2p53 = GPair_init \<and>
   \<not> gpair_eq (operator_minus (operator_plus pair_one pair_2p53) pair_2p53) pair_one"
proof -
  have "operator_minus (operator_plus pair_one pair_2p53) pair_2p53 = GPair_init"
    by (simp add: operator_minus_def operator_plus_def pair_one_def pair_2p53_def GPair_init_def
        fadd_one_2p53 fsub_2p53_self fadd_zero_zero fsub_zero_zero)
  moreover have "\<not> gpair_eq GPair_init pair_one"
    by (simp add: gpair_eq_def GPair_init_def pair_one_def deq_def lit_eval)
  ultimately show ?thesis by simp
qed

text \<open>
  Claim C9, amended: for all pairs \<open>a\<close> and \<open>b\<close>, \<open>a + b\<close> and \<open>b + a\<close> are the same pair (in
  each field the same datum, or a NaN on both sides); and \<open>(a + b) - b == a\<close> whenever both
  fields of \<open>a + b\<close> are computed exactly (finite operands, a finite sum, nothing rounded
  off).
\<close>

theorem GPair_commute_exact_roundtrip:
  "same_pair (operator_plus a b) (operator_plus b a) \<and>
   (exact_sum (grad a) (grad b) \<and> exact_sum (hess a) (hess b) \<longrightarrow>
      gpair_eq (operator_minus (operator_plus a b) b) a)"
  by (simp add: same_pair_def gpair_eq_def operator_plus_def operator_minus_def
      fadd_same_datum exact_sum_roundtrip)

theorem GPair_commute_exact_roundtrip_witness:
  "exact_sum (grad pair_four) (grad pair_unit) \<and> exact_sum (hess pair_four) (hess pair_unit) \<and>
   same_pair (operator_plus pair_four pair_unit) (operator_plus pair_unit pair_four) \<and>
   gpair_eq (operator_minus (operator_plus pair_four pair_unit) pair_unit) pair_four"
proof -
  have e: "exact_sum (grad pair_four) (grad pair_unit)" "exact_sum (hess pair_four) (hess pair_unit)"
    by (simp_all add: pair_four_def pair_unit_def exact_sum_four_one)
  show ?thesis using GPair_commute_exact_roundtrip [of pair_four pair_unit] e by blast
qed

end
